theory Spec2Isabelle
  imports Complex_Main "HOL-Library.Sublist" "HOL-Library.While_Combinator"
begin

section \<open>Python values used by the crawler\<close>

text \<open>
  Exceptions are values.  \<open>KeyError k\<close> is Python's own error for a missing dictionary
  key; \<open>ExternalError msg\<close> stands for any exception raised by an external collaborator
  (the HTTP transport, the browser page, the JavaScript evaluator).
\<close>

datatype error = KeyError string | ExternalError string

text \<open>
  A JSON object whose fields are strings, as an association list; \<open>dict_get d k dflt\<close>
  is \<^verbatim>\<open>d.get(k, dflt)\<close>.
\<close>

type_synonym comment = "(string \<times> string) list"

definition dict_get :: "(string \<times> 'v) list \<Rightarrow> string \<Rightarrow> 'v \<Rightarrow> 'v" where
  "dict_get d k dflt = (case map_of d k of None \<Rightarrow> dflt | Some v \<Rightarrow> v)"

text \<open>\<^verbatim>\<open>k in t\<close> on strings: \<open>k\<close> occurs in \<open>t\<close> as a contiguous, case-sensitive substring.\<close>

fun str_in :: "string \<Rightarrow> string \<Rightarrow> bool" where
  "str_in k [] = (k = [])"
| "str_in k (c # cs) = (prefix k (c # cs) \<or> str_in k cs)"

text \<open>\<^verbatim>\<open>xs[:n]\<close>: a negative bound counts from the end of the list.\<close>

definition py_slice_to :: "'a list \<Rightarrow> int \<Rightarrow> 'a list" where
  "py_slice_to xs n = (if 0 \<le> n then take (nat n) xs else take (nat (int (length xs) + n)) xs)"

section \<open>The comment harvester: \<^verbatim>\<open>Client.get_aweme_all_comments\<close> (client.py)\<close>

text \<open>
  The decoded response of one page fetch (\<^verbatim>\<open>comments_res\<close>).  Each of the three fields the
  harvester reads may be missing, in which case \<^verbatim>\<open>.get\<close> supplies the default.
\<close>

record comments_res =
  res_has_more :: "int option"
  res_cursor :: "int option"
  res_comments :: "comment list option"

text \<open>
  The arguments of the generator.  \<open>callback\<close> records whether a callback was passed;
  \<open>crawl_interval\<close> is only handed on to \<^verbatim>\<open>asyncio.sleep\<close>; \<open>keywords_arg\<close> is the
  parameter \<^verbatim>\<open>keywords\<close>.
\<close>

record harvest_args =
  aweme_id :: string
  crawl_interval :: rat
  is_fetch_sub_comments :: bool
  callback :: bool
  max_comments :: "int option"
  keywords_arg :: "string list option"

text \<open>The three local variables that survive from one loop iteration to the next.\<close>

record harvest_state =
  comments_has_more :: int
  comments_cursor :: int
  collected_comments_count :: int

definition init_state :: harvest_state where
  "init_state = \<lparr>comments_has_more = 1, comments_cursor = 0, collected_comments_count = 0\<rparr>"

text \<open>
  What the generator does to the world, in order: a page fetch (with the cursor sent), a call
  of the callback (with the raw page), the rate-limiting sleep, and a batch handed to the
  consumer.
\<close>

datatype event =
    Fetch string int
  | Callback string "comment list"
  | Sleep rat
  | Yield "comment list"

text \<open>How one execution of the loop body ends.\<close>

datatype control = Next | Break | Raise error

record iteration =
  it_events :: "event list"
  it_result :: "comment list"
  it_state :: harvest_state
  it_control :: control

text \<open>The \<^verbatim>\<open>while\<close> condition.\<close>

definition loop_cond :: "harvest_args \<Rightarrow> harvest_state \<Rightarrow> bool" where
  "loop_cond a s =
     (comments_has_more s \<noteq> 0 \<and>
      (case max_comments a of
         None \<Rightarrow> True
       | Some m \<Rightarrow> collected_comments_count s < m \<or> m = 0))"

text \<open>\<^verbatim>\<open>any(keyword in comment.get("text", "") for keyword in keywords)\<close>\<close>

definition matches_keywords :: "string list \<Rightarrow> comment \<Rightarrow> bool" where
  "matches_keywords kws c = list_ex (\<lambda>keyword. str_in keyword (dict_get c ''text'' [])) kws"

text \<open>The keyword filter; \<^verbatim>\<open>if keywords:\<close> is false for \<^verbatim>\<open>None\<close> and for the empty list.\<close>

definition filter_comments :: "string list option \<Rightarrow> comment list \<Rightarrow> comment list" where
  "filter_comments kws comments =
     (case kws of
        None \<Rightarrow> comments
      | Some ks \<Rightarrow> if ks = [] then comments else filter (matches_keywords ks) comments)"

text \<open>
  The quota step: the batch \<^verbatim>\<open>result\<close> of this iteration, truncated to the remaining quota
  when \<^verbatim>\<open>max_comments is not None and max_comments > 0\<close>.
\<close>

definition quota_batch :: "harvest_args \<Rightarrow> harvest_state \<Rightarrow> comment list \<Rightarrow> comment list" where
  "quota_batch a s filtered_comments =
     (case max_comments a of
        None \<Rightarrow> filtered_comments
      | Some m \<Rightarrow>
          if 0 < m then py_slice_to filtered_comments (m - collected_comments_count s)
          else filtered_comments)"

text \<open>\<^verbatim>\<open>max_comments is not None and 0 < max_comments <= collected_comments_count\<close>\<close>

definition quota_reached :: "harvest_args \<Rightarrow> harvest_state \<Rightarrow> bool" where
  "quota_reached a s =
     (case max_comments a of
        None \<Rightarrow> False
      | Some m \<Rightarrow> 0 < m \<and> m \<le> collected_comments_count s)"

text \<open>
  One execution of the loop body, given what the fetch returned (a page, or an exception,
  which is not caught here).  The statements are in the order of the source: the fetch, the
  three \<^verbatim>\<open>.get\<close>s, the \<^verbatim>\<open>continue\<close> on an empty page, the filter, the quota, the callback,
  the \<^verbatim>\<open>break\<close>, and only then the sleep and the \<^verbatim>\<open>yield\<close>.  The callback is taken to
  return; the branch on \<^verbatim>\<open>is_fetch_sub_comments\<close> is \<^verbatim>\<open>pass\<close> and leaves no trace.
\<close>

definition loop_body :: "harvest_args \<Rightarrow> harvest_state \<Rightarrow> error + comments_res \<Rightarrow> iteration" where
  "loop_body a s r =
     (let fetch = Fetch (aweme_id a) (comments_cursor s) in
      case r of
        Inl e \<Rightarrow> \<lparr>it_events = [fetch], it_result = [], it_state = s, it_control = Raise e\<rparr>
      | Inr comments_res \<Rightarrow>
          let s1 = s\<lparr>comments_has_more := (case res_has_more comments_res of None \<Rightarrow> 0 | Some h \<Rightarrow> h),
                     comments_cursor := (case res_cursor comments_res of None \<Rightarrow> 0 | Some c \<Rightarrow> c)\<rparr>;
              comments = (case res_comments comments_res of None \<Rightarrow> [] | Some cs \<Rightarrow> cs)
          in
          if comments = [] then
            \<lparr>it_events = [fetch], it_result = [], it_state = s1, it_control = Next\<rparr>
          else
            let filtered_comments = filter_comments (keywords_arg a) comments;
                result = quota_batch a s1 filtered_comments;
                s2 = s1\<lparr>collected_comments_count :=
                          collected_comments_count s1 + int (length result)\<rparr>;
                called = (if callback a then [Callback (aweme_id a) comments] else [])
            in
            if quota_reached a s2 then
              \<lparr>it_events = fetch # called, it_result = result, it_state = s2, it_control = Break\<rparr>
            else
              \<lparr>it_events = fetch # called @ [Sleep (crawl_interval a), Yield result],
               it_result = result, it_state = s2, it_control = Next\<rparr>)"

text \<open>How the generator as a whole ends.\<close>

datatype outcome =
    LoopExit          \<comment> \<open>the \<^verbatim>\<open>while\<close> condition became false\<close>
  | QuotaBreak        \<comment> \<open>the \<^verbatim>\<open>break\<close>\<close>
  | Raised error      \<comment> \<open>a fetch raised; the exception leaves the generator\<close>
  | AwaitingFetch     \<comment> \<open>the loop is suspended in a fetch that has not been answered\<close>

text \<open>
  The loop, driven by the answers the successive fetches receive.  The platform decides
  what each fetch returns, so the answers are an input: the \<open>i\<close>-th element of the list is
  the answer to the \<open>i\<close>-th fetch.  When the list is used up and the loop wants another
  page, the run stops at that pending fetch.
\<close>

fun harvest_loop ::
  "harvest_args \<Rightarrow> (error + comments_res) list \<Rightarrow> harvest_state \<Rightarrow> iteration list \<times> outcome"
where
  "harvest_loop a [] s = (if loop_cond a s then ([], AwaitingFetch) else ([], LoopExit))"
| "harvest_loop a (r # rs) s =
     (if loop_cond a s then
        (let it = loop_body a s r in
         case it_control it of
           Next \<Rightarrow> (case harvest_loop a rs (it_state it) of (its, out) \<Rightarrow> (it # its, out))
         | Break \<Rightarrow> ([it], QuotaBreak)
         | Raise e \<Rightarrow> ([it], Raised e))
      else ([], LoopExit))"

definition get_aweme_all_comments ::
  "harvest_args \<Rightarrow> (error + comments_res) list \<Rightarrow> iteration list \<times> outcome" where
  "get_aweme_all_comments a rs = harvest_loop a rs init_state"

text \<open>Observations of a run.\<close>

definition run_events :: "iteration list \<times> outcome \<Rightarrow> event list" where
  "run_events run = concat (map it_events (fst run))"

fun yielded_of :: "event list \<Rightarrow> comment list list" where
  "yielded_of [] = []"
| "yielded_of (Yield b # es) = b # yielded_of es"
| "yielded_of (e # es) = yielded_of es"

definition yielded :: "iteration list \<times> outcome \<Rightarrow> comment list list" where
  "yielded run = yielded_of (run_events run)"

definition collected_counts :: "iteration list \<times> outcome \<Rightarrow> int list" where
  "collected_counts run = map (\<lambda>it. collected_comments_count (it_state it)) (fst run)"

text \<open>The cursor the loop holds after a fetch was answered by \<open>r\<close>.\<close>

definition cursor_after :: "error + comments_res \<Rightarrow> int" where
  "cursor_after r =
     (case r of
        Inl e \<Rightarrow> 0
      | Inr p \<Rightarrow> (case res_cursor p of None \<Rightarrow> 0 | Some c \<Rightarrow> c))"

text \<open>\<^verbatim>\<open>not comments\<close>: the page has no comment list, or an empty one.\<close>

definition empty_page :: "comments_res \<Rightarrow> bool" where
  "empty_page p = (case res_comments p of None \<Rightarrow> True | Some cs \<Rightarrow> cs = [])"

text \<open>The state after the three \<^verbatim>\<open>.get\<close>s of an iteration.\<close>

definition after_fetch :: "harvest_state \<Rightarrow> comments_res \<Rightarrow> harvest_state" where
  "after_fetch s p =
     s\<lparr>comments_has_more := (case res_has_more p of None \<Rightarrow> 0 | Some h \<Rightarrow> h),
       comments_cursor := (case res_cursor p of None \<Rightarrow> 0 | Some c \<Rightarrow> c)\<rparr>"

subsection \<open>The two-page scenario\<close>

text \<open>
  Target item \<open>A\<close>: the first page holds 15 comments, \<^verbatim>\<open>has_more\<close> true and cursor 15; the
  second holds 10 comments and \<^verbatim>\<open>has_more\<close> false.  The harvest runs with
  \<^verbatim>\<open>max_comments = 20\<close> and no keywords.
\<close>

definition mk_comment :: "nat \<Rightarrow> comment" where
  "mk_comment i = [(''cid'', replicate (Suc i) CHR ''c''), (''text'', ''nice video'')]"

definition args_A :: harvest_args where
  "args_A = \<lparr>aweme_id = ''A'', crawl_interval = 1, is_fetch_sub_comments = False,
             callback = False, max_comments = Some 20, keywords_arg = None\<rparr>"

definition page_1 :: comments_res where
  "page_1 = \<lparr>res_has_more = Some 1, res_cursor = Some 15,
             res_comments = Some (map mk_comment [0..<15])\<rparr>"

definition page_2 :: comments_res where
  "page_2 = \<lparr>res_has_more = Some 0, res_cursor = Some 25,
             res_comments = Some (map mk_comment [15..<25])\<rparr>"

section \<open>Request signing: \<^verbatim>\<open>Client.__process_req_params\<close> (client.py)\<close>

text \<open>
  A parameter value is a string or an integer (\<^verbatim>\<open>cursor\<close>, \<^verbatim>\<open>count\<close>, \<^verbatim>\<open>item_type\<close>);
  \<open>format_value\<close> is what the f-string \<^verbatim>\<open>f"{k}={v}"\<close> prints for it.
\<close>

datatype pyval = PyStr string | PyInt int

definition digit_char :: "nat \<Rightarrow> char" where
  "digit_char d = char_of (48 + d)"

fun str_of_nat :: "nat \<Rightarrow> string" where
  "str_of_nat n = (if n < 10 then [digit_char n] else str_of_nat (n div 10) @ [digit_char (n mod 10)])"

definition str_of_int :: "int \<Rightarrow> string" where
  "str_of_int i = (if i < 0 then CHR ''-'' # str_of_nat (nat (- i)) else str_of_nat (nat i))"

fun format_value :: "pyval \<Rightarrow> string" where
  "format_value (PyStr s) = s"
| "format_value (PyInt i) = str_of_int i"

text \<open>
  A Python \<^verbatim>\<open>dict\<close> keeps its keys in insertion order: an association list with distinct
  keys.  \<open>dict_set d k v\<close> is \<^verbatim>\<open>d[k] = v\<close> (an existing key keeps its place, a new one goes
  last) and \<open>dict_update d other\<close> is \<^verbatim>\<open>d.update(other)\<close>.
\<close>

type_synonym 'v pydict = "(string \<times> 'v) list"

fun dict_set :: "'v pydict \<Rightarrow> string \<Rightarrow> 'v \<Rightarrow> 'v pydict" where
  "dict_set [] k v = [(k, v)]"
| "dict_set ((k', v') # d) k v = (if k' = k then (k, v) # d else (k', v') # dict_set d k v)"

definition dict_update :: "'v pydict \<Rightarrow> 'v pydict \<Rightarrow> 'v pydict" where
  "dict_update d other = foldl (\<lambda>d' (k, v). dict_set d' k v) d other"

definition common_params :: "pyval pydict" where
  "common_params =
     [(''device_platform'', PyStr ''webapp''),
      (''aid'', PyStr ''6383''),
      (''channel'', PyStr ''channel_pc_web''),
      (''cookie_enabled'', PyStr ''true''),
      (''browser_language'', PyStr ''zh-CN''),
      (''browser_platform'', PyStr ''Win32''),
      (''browser_name'', PyStr ''Firefox''),
      (''browser_version'', PyStr ''110.0''),
      (''browser_online'', PyStr ''true''),
      (''engine_name'', PyStr ''Gecko''),
      (''os_name'', PyStr ''Windows''),
      (''os_version'', PyStr ''10''),
      (''engine_version'', PyStr ''109.0''),
      (''platform'', PyStr ''PC''),
      (''screen_width'', PyStr ''1920''),
      (''screen_height'', PyStr ''1200'')]"

text \<open>\<^verbatim>\<open>sep.join(xs)\<close>\<close>

fun join :: "string \<Rightarrow> string list \<Rightarrow> string" where
  "join sep [] = []"
| "join sep [x] = x"
| "join sep (x # y # ys) = x @ sep @ join sep (y # ys)"

text \<open>\<^verbatim>\<open>"&".join([f"{k}={v}" for k, v in params.items()])\<close>\<close>

definition query_of :: "pyval pydict \<Rightarrow> string" where
  "query_of params = join ''&'' (map (\<lambda>(k, v). k @ ''='' @ format_value v) params)"

text \<open>
  The external collaborators of the signing step.  \<open>prepare\<close> is the outcome of the two
  calls made before the map is touched (reading the page's local storage, whose result is
  not used, and compiling \<^verbatim>\<open>libs/douyin.js\<close>): \<open>None\<close> when both return.  \<open>js_sign query ua\<close>
  is \<^verbatim>\<open>douyin_js_obj.call("sign", query, ua)\<close>: the signature, or the exception it raises.
\<close>

record sign_env =
  prepare :: "error option"
  js_sign :: "string \<Rightarrow> string \<Rightarrow> error + string"

text \<open>\<^verbatim>\<open>headers or self.headers\<close>\<close>

definition effective_headers :: "string pydict \<Rightarrow> string pydict option \<Rightarrow> string pydict" where
  "effective_headers self_headers headers =
     (case headers of
        None \<Rightarrow> self_headers
      | Some h \<Rightarrow> if h = [] then self_headers else h)"

text \<open>
  The method mutates \<^verbatim>\<open>params\<close> in place and returns nothing, so the model returns the map
  as the caller finds it afterwards, with the exception that left the method, if any.
\<close>

definition process_req_params ::
  "sign_env \<Rightarrow> string pydict \<Rightarrow> pyval pydict option \<Rightarrow> string pydict option
     \<Rightarrow> pyval pydict option \<times> error option" where
  "process_req_params env self_headers params headers =
     (case params of
        None \<Rightarrow> (None, None)
      | Some d \<Rightarrow>
          if d = [] then (Some d, None)
          else
            let hs = effective_headers self_headers headers in
            (case prepare env of
               Some e \<Rightarrow> (Some d, Some e)
             | None \<Rightarrow>
                 let d1 = dict_update d common_params;
                     query = query_of d1
                 in
                 (case map_of hs ''User-Agent'' of
                    None \<Rightarrow> (Some d1, Some (KeyError ''User-Agent''))
                  | Some ua \<Rightarrow>
                      (case js_sign env query ua of
                         Inl e \<Rightarrow> (Some d1, Some e)
                       | Inr x_bogus \<Rightarrow> (Some (dict_set d1 ''X-Bogus'' (PyStr x_bogus)), None)))))"

text \<open>
  The merge as the specification words it: the keys of \<open>d\<close> in their order, each with the
  constant's value when it names a constant, followed by the constants \<open>d\<close> did not have.
\<close>

definition merged_spec :: "'v pydict \<Rightarrow> 'v pydict \<Rightarrow> 'v pydict" where
  "merged_spec d consts =
     map (\<lambda>(k, v). (k, case map_of consts k of None \<Rightarrow> v | Some c \<Rightarrow> c)) d @
     filter (\<lambda>(k, c). k \<notin> fst ` set d) consts"

subsection \<open>A request to sign twice\<close>

definition env_0 :: sign_env where
  "env_0 = \<lparr>prepare = None, js_sign = (\<lambda>query ua. Inr (ua @ '':'' @ query))\<rparr>"

definition headers_0 :: "string pydict" where
  "headers_0 = [(''User-Agent'', ''UA''), (''Cookie'', ''a=b'')]"

definition params_0 :: "pyval pydict" where
  "params_0 = [(''aweme_id'', PyStr ''7306880126984211724''), (''cursor'', PyInt 0),
               (''count'', PyInt 20), (''item_type'', PyInt 0)]"

section \<open>Trajectory synthesis: \<^verbatim>\<open>get_track_simple\<close> and \<^verbatim>\<open>_get_tracks\<close> (utils.py)\<close>












subsection \<open>Inputs for the harvester's properties\<close>

text \<open>A harvest with a keyword, and a page with one matching and one other comment.\<close>

definition args_K :: harvest_args where
  "args_K = \<lparr>aweme_id = ''A'', crawl_interval = 1, is_fetch_sub_comments = False,
             callback = False, max_comments = None, keywords_arg = Some [''nice'']\<rparr>"

definition page_K :: comments_res where
  "page_K = \<lparr>res_has_more = Some 0, res_cursor = Some 2,
             res_comments = Some [[(''cid'', ''1''), (''text'', ''so nice'')],
                                  [(''cid'', ''2''), (''text'', ''Nice, no'')]]\<rparr>"

text \<open>Two pages without comments that announce more, and a harvest with a callback.\<close>

definition page_E :: comments_res where
  "page_E = \<lparr>res_has_more = Some 1, res_cursor = Some 7, res_comments = Some []\<rparr>"

definition page_N :: comments_res where
  "page_N = \<lparr>res_has_more = Some 1, res_cursor = Some 9, res_comments = None\<rparr>"

definition args_C :: harvest_args where
  "args_C = \<lparr>aweme_id = ''A'', crawl_interval = 1, is_fetch_sub_comments = False,
             callback = True, max_comments = Some 20, keywords_arg = None\<rparr>"

section \<open>Properties of the harvester\<close>

declare str_of_nat.simps [simp del]

lemma str_in_sublist: "str_in k t \<longleftrightarrow> sublist k t"
  by (induction t) (auto simp: sublist_Cons_right)

lemma matches_keywords_iff:
  "matches_keywords kws c \<longleftrightarrow> (\<exists>k \<in> set kws. sublist k (dict_get c ''text'' []))"
  by (simp add: matches_keywords_def list_ex_iff str_in_sublist)

lemma in_set_py_slice_to: "x \<in> set (py_slice_to xs n) \<Longrightarrow> x \<in> set xs"
  by (auto simp: py_slice_to_def dest: in_set_takeD split: if_splits)

lemma yielded_of_append: "yielded_of (es @ fs) = yielded_of es @ yielded_of fs"
  by (induction es rule: yielded_of.induct) simp_all

text \<open>An iteration hands the consumer its batch \<^verbatim>\<open>result\<close>, or nothing.\<close>

lemma loop_body_events_cases:
  "yielded_of (it_events (loop_body a s r)) = [] \<or>
   yielded_of (it_events (loop_body a s r)) = [it_result (loop_body a s r)]"
  by (simp add: loop_body_def Let_def yielded_of_append split: sum.split)

lemma loop_body_collected:
  "collected_comments_count (it_state (loop_body a s r)) =
     collected_comments_count s + int (length (it_result (loop_body a s r)))"
  by (simp add: loop_body_def Let_def split: sum.split)

lemma loop_body_result_le:
  assumes "max_comments a = Some m" "0 < m" "loop_cond a s"
  shows "int (length (it_result (loop_body a s r))) \<le> m - collected_comments_count s"
  using assms
  by (auto simp add: loop_body_def Let_def loop_cond_def quota_batch_def py_slice_to_def
      split: sum.split)

lemma hd_loop_body_events:
  "hd (it_events (loop_body a s r)) = Fetch (aweme_id a) (comments_cursor s)"
  by (simp add: loop_body_def Let_def split: sum.split)

lemma loop_body_empty_page:
  "empty_page p \<Longrightarrow>
   loop_body a s (Inr p) =
     \<lparr>it_events = [Fetch (aweme_id a) (comments_cursor s)], it_result = [],
      it_state = after_fetch s p, it_control = Next\<rparr>"
  by (auto simp add: loop_body_def empty_page_def after_fetch_def split: option.splits)

lemma loop_cond_after_empty:
  "loop_cond a s \<Longrightarrow>
     loop_cond a (after_fetch s p) \<longleftrightarrow> (\<exists>h. res_has_more p = Some h \<and> h \<noteq> 0)"
  by (auto simp add: loop_cond_def after_fetch_def split: option.splits)

lemma harvest_loop_counts:
  assumes "max_comments a = Some m" "0 < m"
  shows "sorted (collected_comments_count s # collected_counts (harvest_loop a rs s)) \<and>
         (\<forall>c \<in> set (collected_counts (harvest_loop a rs s)). c \<le> m)"
proof (induction rs arbitrary: s)
  case Nil
  then show ?case by (simp add: collected_counts_def)
next
  case (Cons r rs)
  let ?it = "loop_body a s r"
  show ?case
  proof (cases "loop_cond a s")
    case False
    then show ?thesis by (simp add: collected_counts_def)
  next
    case True
    have le: "collected_comments_count s \<le> collected_comments_count (it_state ?it)"
      by (simp add: loop_body_collected)
    have ub: "collected_comments_count (it_state ?it) \<le> m"
      using loop_body_result_le [OF assms True, of r] by (simp add: loop_body_collected)
    show ?thesis
    proof (cases "it_control ?it")
      case Next
      obtain its out where run: "harvest_loop a rs (it_state ?it) = (its, out)"
        by (cases "harvest_loop a rs (it_state ?it)")
      from Cons.IH [of "it_state ?it"] run
      have "sorted (collected_comments_count (it_state ?it) #
                    map (\<lambda>it. collected_comments_count (it_state it)) its)"
        and "\<forall>c \<in> set (map (\<lambda>it. collected_comments_count (it_state it)) its). c \<le> m"
        by (simp_all add: collected_counts_def)
      with True Next run le ub show ?thesis
        by (auto simp add: collected_counts_def Let_def)
    next
      case Break
      with True le ub show ?thesis by (simp add: collected_counts_def Let_def)
    next
      case (Raise e)
      with True le ub show ?thesis by (simp add: collected_counts_def Let_def)
    qed
  qed
qed

lemma harvest_loop_yielded:
  "collected_comments_count s + int (length (concat (yielded (harvest_loop a rs s))))
     \<le> last (collected_comments_count s # collected_counts (harvest_loop a rs s))"
proof (induction rs arbitrary: s)
  case Nil
  then show ?case by (simp add: collected_counts_def yielded_def run_events_def)
next
  case (Cons r rs)
  let ?it = "loop_body a s r"
  have step: "int (length (concat (yielded_of (it_events ?it))))
                \<le> collected_comments_count (it_state ?it) - collected_comments_count s"
    using loop_body_events_cases [of a s r] by (auto simp add: loop_body_collected)
  show ?case
  proof (cases "loop_cond a s")
    case False
    then show ?thesis by (simp add: collected_counts_def yielded_def run_events_def)
  next
    case True
    show ?thesis
    proof (cases "it_control ?it")
      case Next
      obtain its out where run: "harvest_loop a rs (it_state ?it) = (its, out)"
        by (cases "harvest_loop a rs (it_state ?it)")
      from Cons.IH [of "it_state ?it"] run
      have "collected_comments_count (it_state ?it) +
              int (length (concat (yielded_of (concat (map it_events its)))))
              \<le> last (collected_comments_count (it_state ?it) #
                       map (\<lambda>it. collected_comments_count (it_state it)) its)"
        by (simp add: collected_counts_def yielded_def run_events_def)
      with True Next run step show ?thesis
        by (simp add: collected_counts_def yielded_def run_events_def Let_def yielded_of_append)
    next
      case Break
      with True step show ?thesis
        by (simp add: collected_counts_def yielded_def run_events_def Let_def)
    next
      case (Raise e)
      with True step show ?thesis
        by (simp add: collected_counts_def yielded_def run_events_def Let_def)
    qed
  qed
qed

text \<open>Every batch a run yields is the \<^verbatim>\<open>result\<close> of one of its iterations.\<close>

lemma harvest_loop_yielded_subset:
  "b \<in> set (yielded (harvest_loop a rs s)) \<Longrightarrow> \<exists>s' r. b = it_result (loop_body a s' r)"
proof (induction rs arbitrary: s)
  case Nil
  then show ?case by (simp add: yielded_def run_events_def split: if_splits)
next
  case (Cons r rs)
  let ?it = "loop_body a s r"
  from Cons.prems have lc: "loop_cond a s"
    by (auto simp add: yielded_def run_events_def split: if_splits)
  obtain its out where run: "harvest_loop a rs (it_state ?it) = (its, out)"
    by (cases "harvest_loop a rs (it_state ?it)")
  from Cons.prems lc run
  have "b \<in> set (yielded_of (it_events ?it)) \<or>
        b \<in> set (yielded (harvest_loop a rs (it_state ?it)))"
    by (cases "it_control ?it")
       (auto simp add: yielded_def run_events_def Let_def yielded_of_append)
  then show ?case
  proof
    assume "b \<in> set (yielded_of (it_events ?it))"
    with loop_body_events_cases [of a s r] have "b = it_result ?it" by auto
    then show ?thesis by blast
  next
    assume "b \<in> set (yielded (harvest_loop a rs (it_state ?it)))"
    then show ?thesis by (rule Cons.IH)
  qed
qed

lemma loop_body_result_matches:
  assumes "keywords_arg a = Some kws" "kws \<noteq> []" "c \<in> set (it_result (loop_body a s r))"
  shows "matches_keywords kws c"
proof (cases r)
  case (Inl e)
  with assms show ?thesis by (simp add: loop_body_def)
next
  case (Inr p)
  show ?thesis
  proof (cases "empty_page p")
    case True
    with Inr assms show ?thesis by (simp add: loop_body_empty_page)
  next
    case False
    let ?cs = "case res_comments p of None \<Rightarrow> [] | Some cs \<Rightarrow> cs"
    from False have ne: "?cs \<noteq> []" by (simp add: empty_page_def split: option.splits)
    from assms(3) Inr ne
    have "c \<in> set (quota_batch a (after_fetch s p) (filter_comments (keywords_arg a) ?cs))"
      by (simp add: loop_body_def Let_def after_fetch_def split: if_splits)
    then have "c \<in> set (filter_comments (keywords_arg a) ?cs)"
      by (auto simp add: quota_batch_def dest: in_set_py_slice_to split: option.splits if_splits)
    with assms(1,2) show ?thesis by (simp add: filter_comments_def)
  qed
qed

lemma loop_body_unfiltered:
  assumes "keywords_arg a = None \<or> keywords_arg a = Some []" "loop_cond a s"
  shows "it_result (loop_body a s (Inr p)) =
          (let comments = (case res_comments p of None \<Rightarrow> [] | Some cs \<Rightarrow> cs) in
           case max_comments a of
             None \<Rightarrow> comments
           | Some m \<Rightarrow> if 0 < m then take (nat (m - collected_comments_count s)) comments
                       else comments)"
proof -
  have f: "filter_comments (keywords_arg a) cs = cs" for cs
    using assms(1) by (auto simp add: filter_comments_def)
  show ?thesis
    using assms(2)
    by (auto simp add: loop_body_def Let_def f quota_batch_def py_slice_to_def loop_cond_def
        split: option.splits)
qed

lemma empty_pages_events:
  assumes "\<forall>r \<in> set rs. \<exists>p h. r = Inr p \<and> empty_page p \<and> res_has_more p = Some h \<and> h \<noteq> 0"
    and "loop_cond a s"
  shows "snd (harvest_loop a rs s) = AwaitingFetch \<and>
         run_events (harvest_loop a rs s) =
           map (Fetch (aweme_id a)) (butlast (comments_cursor s # map cursor_after rs))"
  using assms
proof (induction rs arbitrary: s)
  case Nil
  then show ?case by (simp add: run_events_def)
next
  case (Cons r rs)
  from Cons.prems(1) obtain p h where r: "r = Inr p" and e: "empty_page p"
    and hm: "res_has_more p = Some h" "h \<noteq> 0"
    by auto
  have lc: "loop_cond a (after_fetch s p)"
    using loop_cond_after_empty [OF Cons.prems(2), of p] hm by simp
  from Cons.prems(1)
  have rest: "\<forall>r \<in> set rs. \<exists>p h. r = Inr p \<and> empty_page p \<and> res_has_more p = Some h \<and> h \<noteq> 0"
    by simp
  note IH = Cons.IH [OF rest lc]
  obtain its out where run: "harvest_loop a rs (after_fetch s p) = (its, out)"
    by (cases "harvest_loop a rs (after_fetch s p)")
  have cur: "comments_cursor (after_fetch s p) = cursor_after r"
    by (simp add: after_fetch_def cursor_after_def r)
  from IH run Cons.prems(2) r e show ?case
    by (simp add: loop_body_empty_page Let_def run_events_def cur)
qed

text \<open>
  C1.  The two-page scenario: page 1 holds 15 comments (\<^verbatim>\<open>has_more\<close> true, cursor 15),
  page 2 holds 10 (\<^verbatim>\<open>has_more\<close> false), \<^verbatim>\<open>max_comments = 20\<close>, no keywords.  The run
  fetches with cursor 0, sleeps, yields the 15 comments of page 1 and fetches with cursor 15.
  The second iteration builds a batch of 5 and raises the count to 20, but it reaches the
  \<^verbatim>\<open>break\<close> before the \<^verbatim>\<open>yield\<close>: the consumer receives the batch of 15 and nothing else.
\<close>

theorem two_page_scenario_drops_last_batch:
  "run_events (get_aweme_all_comments args_A [Inr page_1, Inr page_2]) =
     [Fetch ''A'' 0, Sleep 1, Yield (map mk_comment [0..<15]), Fetch ''A'' 15] \<and>
   yielded (get_aweme_all_comments args_A [Inr page_1, Inr page_2]) = [map mk_comment [0..<15]] \<and>
   map (\<lambda>it. length (it_result it)) (fst (get_aweme_all_comments args_A [Inr page_1, Inr page_2]))
     = [15, 5] \<and>
   collected_counts (get_aweme_all_comments args_A [Inr page_1, Inr page_2]) = [15, 20] \<and>
   snd (get_aweme_all_comments args_A [Inr page_1, Inr page_2]) = QuotaBreak"
proof (intro conjI)
  show "run_events (get_aweme_all_comments args_A [Inr page_1, Inr page_2]) =
     [Fetch ''A'' 0, Sleep 1, Yield (map mk_comment [0..<15]), Fetch ''A'' 15]"
    by code_simp
  show "yielded (get_aweme_all_comments args_A [Inr page_1, Inr page_2]) =
     [map mk_comment [0..<15]]"
    by code_simp
  show "map (\<lambda>it. length (it_result it))
          (fst (get_aweme_all_comments args_A [Inr page_1, Inr page_2])) = [15, 5]"
    by code_simp
  show "collected_counts (get_aweme_all_comments args_A [Inr page_1, Inr page_2]) = [15, 20]"
    by code_simp
  show "snd (get_aweme_all_comments args_A [Inr page_1, Inr page_2]) = QuotaBreak"
    by code_simp
qed

text \<open>
  C2.  With a positive \<^verbatim>\<open>max_comments\<close>, whatever the fetches return: the collected count
  never decreases from one iteration to the next, it never exceeds \<^verbatim>\<open>max_comments\<close>, and
  the number of comments yielded so far never exceeds \<^verbatim>\<open>max_comments\<close>.
\<close>

theorem collected_count_bounded:
  assumes "max_comments a = Some m" and "0 < m"
  shows "sorted (0 # collected_counts (get_aweme_all_comments a rs)) \<and>
         (\<forall>c \<in> set (collected_counts (get_aweme_all_comments a rs)). c \<le> m) \<and>
         int (length (concat (yielded (get_aweme_all_comments a rs)))) \<le> m"
proof -
  let ?run = "get_aweme_all_comments a rs"
  have c: "sorted (0 # collected_counts ?run)" "\<forall>c \<in> set (collected_counts ?run). c \<le> m"
    using harvest_loop_counts [OF assms, of init_state rs]
    by (simp_all add: get_aweme_all_comments_def init_state_def)
  have y: "int (length (concat (yielded ?run))) \<le> last (0 # collected_counts ?run)"
    using harvest_loop_yielded [of init_state a rs]
    by (simp add: get_aweme_all_comments_def init_state_def)
  have "last (0 # collected_counts ?run) \<le> m"
    using c(2) assms(2) by (cases "collected_counts ?run = []") auto
  with c y show ?thesis by linarith
qed

theorem collected_count_bounded_witness:
  "max_comments args_A = Some 20 \<and>
   collected_counts (get_aweme_all_comments args_A [Inr page_1, Inr page_2]) = [15, 20] \<and>
   sorted (0 # collected_counts (get_aweme_all_comments args_A [Inr page_1, Inr page_2])) \<and>
   list_all (\<lambda>c. c \<le> 20)
     (collected_counts (get_aweme_all_comments args_A [Inr page_1, Inr page_2])) \<and>
   int (length (concat (yielded (get_aweme_all_comments args_A [Inr page_1, Inr page_2])))) \<le> 20"
proof -
  have m: "max_comments args_A = Some 20" by (simp add: args_A_def)
  have "collected_counts (get_aweme_all_comments args_A [Inr page_1, Inr page_2]) = [15, 20]"
    by code_simp
  with m collected_count_bounded [OF m, of "[Inr page_1, Inr page_2]"] show ?thesis
    by (simp add: list_all_iff)
qed

text \<open>
  With a non-empty keyword list, every comment of every yielded batch has a \<^verbatim>\<open>text\<close> that
  contains one of the keywords as a substring (characters compared as they are).
\<close>

lemma yielded_comments_match_keyword:
  assumes "keywords_arg a = Some kws" and "kws \<noteq> []"
    and "b \<in> set (yielded (get_aweme_all_comments a rs))" and "c \<in> set b"
  shows "\<exists>k \<in> set kws. sublist k (dict_get c ''text'' [])"
proof -
  from assms(3) obtain s' r where "b = it_result (loop_body a s' r)"
    unfolding get_aweme_all_comments_def by (blast dest: harvest_loop_yielded_subset)
  with assms(1,2,4) have "matches_keywords kws c"
    by (auto intro: loop_body_result_matches)
  then show ?thesis by (simp add: matches_keywords_iff)
qed

lemma keyword_scenario:
  "yielded (get_aweme_all_comments args_K [Inr page_K]) =
     [[[(''cid'', ''1''), (''text'', ''so nice'')]]]"
  by code_simp

text \<open>
  The quota never cuts a batch that reaches the consumer.  A batch that is yielded is the
  whole filtered page: had the slice cut it, or filled the quota exactly, the count would
  have reached \<^verbatim>\<open>max_comments\<close> and the iteration would have left the loop at the \<^verbatim>\<open>break\<close>.
\<close>

lemma yielded_batch_never_truncated:
  assumes "loop_cond a s" and "b \<in> set (yielded_of (it_events (loop_body a s (Inr p))))"
  shows "b = filter_comments (keywords_arg a)
               (case res_comments p of None \<Rightarrow> [] | Some cs \<Rightarrow> cs)"
proof -
  let ?cs = "case res_comments p of None \<Rightarrow> [] | Some cs \<Rightarrow> cs"
  let ?f = "filter_comments (keywords_arg a) ?cs"
  let ?s1 = "after_fetch s p"
  let ?res = "quota_batch a ?s1 ?f"
  let ?s2 = "?s1\<lparr>collected_comments_count := collected_comments_count ?s1 + int (length ?res)\<rparr>"
  from assms(2) have ne: "?cs \<noteq> []"
    by (auto simp add: loop_body_def Let_def split: if_splits)
  with assms(2) have nq: "\<not> quota_reached a ?s2" and b: "b = ?res"
    by (auto simp add: loop_body_def Let_def after_fetch_def yielded_of_append split: if_splits)
  have c1: "collected_comments_count ?s1 = collected_comments_count s"
    by (simp add: after_fetch_def)
  show ?thesis
  proof (cases "max_comments a")
    case None
    with b show ?thesis by (simp add: quota_batch_def)
  next
    case (Some m)
    show ?thesis
    proof (cases "0 < m")
      case False
      with Some b show ?thesis by (simp add: quota_batch_def)
    next
      case True
      from assms(1) Some True have lt: "collected_comments_count s < m"
        by (simp add: loop_cond_def)
      let ?n = "nat (m - collected_comments_count s)"
      from Some True lt have res: "?res = take ?n ?f"
        by (simp add: quota_batch_def py_slice_to_def c1)
      from nq Some True have "collected_comments_count s + int (length ?res) < m"
        by (simp add: quota_reached_def c1)
      with res lt have "length (take ?n ?f) < ?n" by simp
      then have "length ?f < ?n" by simp
      then have "take ?n ?f = ?f" by simp
      with b res show ?thesis by simp
    qed
  qed
qed

text \<open>
  Conversely, a page whose filtered comments fill the remaining quota yields nothing: its
  batch is cut to the quota, counted, and dropped at the \<^verbatim>\<open>break\<close>.
\<close>

lemma truncated_batch_dropped:
  assumes "max_comments a = Some m" and "0 < m" and "loop_cond a s"
    and "res_comments p = Some cs" and "cs \<noteq> []"
    and "m - collected_comments_count s \<le> int (length (filter_comments (keywords_arg a) cs))"
  shows "it_result (loop_body a s (Inr p)) =
           take (nat (m - collected_comments_count s)) (filter_comments (keywords_arg a) cs) \<and>
         yielded_of (it_events (loop_body a s (Inr p))) = [] \<and>
         it_control (loop_body a s (Inr p)) = Break"
proof -
  from assms(1-3) have lt: "collected_comments_count s < m"
    by (simp add: loop_cond_def)
  let ?f = "filter_comments (keywords_arg a) cs"
  let ?n = "nat (m - collected_comments_count s)"
  from assms(6) lt have "int (length (take ?n ?f)) = m - collected_comments_count s"
    by simp
  with assms(1,2,4,5) lt show ?thesis
    by (simp add: loop_body_def Let_def quota_batch_def quota_reached_def py_slice_to_def)
qed

text \<open>
  C4.  The keyword half of the claim holds (lemma \<open>yielded_comments_match_keyword\<close>).  The
  other half does not: with no keywords, the batch for a page should be the page's raw
  comments cut to the remaining quota.  In the two-page scenario the harvest reaches page 2
  with 15 comments collected and a remaining quota of 5.  The iteration builds exactly that
  batch, the first 5 of the 10 raw comments, and then leaves at the \<^verbatim>\<open>break\<close>: nothing is
  yielded for the page.
\<close>

theorem quota_cut_batch_is_not_yielded:
  "it_state (loop_body args_A init_state (Inr page_1)) =
     \<lparr>comments_has_more = 1, comments_cursor = 15, collected_comments_count = 15\<rparr> \<and>
   loop_cond args_A
     \<lparr>comments_has_more = 1, comments_cursor = 15, collected_comments_count = 15\<rparr> \<and>
   it_result (loop_body args_A
       \<lparr>comments_has_more = 1, comments_cursor = 15, collected_comments_count = 15\<rparr>
       (Inr page_2)) = take 5 (map mk_comment [15..<25]) \<and>
   yielded_of (it_events (loop_body args_A
       \<lparr>comments_has_more = 1, comments_cursor = 15, collected_comments_count = 15\<rparr>
       (Inr page_2))) = [] \<and>
   it_control (loop_body args_A
       \<lparr>comments_has_more = 1, comments_cursor = 15, collected_comments_count = 15\<rparr>
       (Inr page_2)) = Break"
proof (intro conjI)
  let ?s = "\<lparr>comments_has_more = 1, comments_cursor = 15, collected_comments_count = 15\<rparr>"
  show "it_state (loop_body args_A init_state (Inr page_1)) = ?s"
    by code_simp
  show lc: "loop_cond args_A ?s"
    by (simp add: loop_cond_def args_A_def)
  have m: "max_comments args_A = Some 20" and k: "keywords_arg args_A = None"
    by (simp_all add: args_A_def)
  have p: "res_comments page_2 = Some (map mk_comment [15..<25])"
    by (simp add: page_2_def)
  have ne: "map mk_comment [15..<25] \<noteq> []" by simp
  have q: "20 - collected_comments_count ?s
             \<le> int (length (filter_comments (keywords_arg args_A) (map mk_comment [15..<25])))"
    by (simp add: k filter_comments_def)
  from truncated_batch_dropped [OF m _ lc p ne q]
  have r: "it_result (loop_body args_A ?s (Inr page_2)) =
             take (nat (20 - collected_comments_count ?s))
               (filter_comments (keywords_arg args_A) (map mk_comment [15..<25]))"
    and y: "yielded_of (it_events (loop_body args_A ?s (Inr page_2))) = []"
    and c: "it_control (loop_body args_A ?s (Inr page_2)) = Break"
    by simp_all
  from r show "it_result (loop_body args_A ?s (Inr page_2)) = take 5 (map mk_comment [15..<25])"
    by (simp add: k filter_comments_def)
  from y show "yielded_of (it_events (loop_body args_A ?s (Inr page_2))) = []" .
  from c show "it_control (loop_body args_A ?s (Inr page_2)) = Break" .
qed

text \<open>
  C7.  A page without comments does not end the harvest.  Its iteration is the fetch and
  nothing else (no filtering, no batch), it takes the page's \<^verbatim>\<open>has_more\<close> and cursor, and
  control goes back to the loop condition.  When the page's \<^verbatim>\<open>has_more\<close> is true, the loop
  goes on to the next fetch, which sends the cursor of the empty page.
\<close>

theorem empty_page_continues:
  assumes "res_comments p = None \<or> res_comments p = Some []" and "loop_cond a s"
  shows "loop_body a s (Inr p) =
           \<lparr>it_events = [Fetch (aweme_id a) (comments_cursor s)], it_result = [],
            it_state = s\<lparr>comments_has_more := (case res_has_more p of None \<Rightarrow> 0 | Some h \<Rightarrow> h),
                         comments_cursor := (case res_cursor p of None \<Rightarrow> 0 | Some c \<Rightarrow> c)\<rparr>,
            it_control = Next\<rparr> \<and>
         harvest_loop a (Inr p # rs) s =
           (case harvest_loop a rs (it_state (loop_body a s (Inr p))) of
              (its, out) \<Rightarrow> (loop_body a s (Inr p) # its, out)) \<and>
         (res_has_more p = Some h \<and> h \<noteq> 0 \<longrightarrow>
           snd (harvest_loop a [Inr p] s) = AwaitingFetch \<and>
           take 2 (fst (harvest_loop a (Inr p # r # rs) s)) =
             [loop_body a s (Inr p), loop_body a (it_state (loop_body a s (Inr p))) r] \<and>
           hd (it_events (loop_body a (it_state (loop_body a s (Inr p))) r)) =
             Fetch (aweme_id a) (case res_cursor p of None \<Rightarrow> 0 | Some c \<Rightarrow> c))"
proof (intro conjI impI)
  from assms(1) have e: "empty_page p" by (auto simp add: empty_page_def)
  show "loop_body a s (Inr p) =
           \<lparr>it_events = [Fetch (aweme_id a) (comments_cursor s)], it_result = [],
            it_state = s\<lparr>comments_has_more := (case res_has_more p of None \<Rightarrow> 0 | Some h \<Rightarrow> h),
                         comments_cursor := (case res_cursor p of None \<Rightarrow> 0 | Some c \<Rightarrow> c)\<rparr>,
            it_control = Next\<rparr>"
    using e by (simp add: loop_body_empty_page after_fetch_def)
  have st: "it_state (loop_body a s (Inr p)) = after_fetch s p"
    and ctl: "it_control (loop_body a s (Inr p)) = Next"
    using e by (simp_all add: loop_body_empty_page)
  show "harvest_loop a (Inr p # rs) s =
           (case harvest_loop a rs (it_state (loop_body a s (Inr p))) of
              (its, out) \<Rightarrow> (loop_body a s (Inr p) # its, out))"
    using assms(2) ctl by (simp add: Let_def)
  assume hm: "res_has_more p = Some h \<and> h \<noteq> 0"
  then have lc: "loop_cond a (after_fetch s p)"
    using loop_cond_after_empty [OF assms(2), of p] by simp
  show "snd (harvest_loop a [Inr p] s) = AwaitingFetch"
    using assms(2) ctl lc by (simp add: Let_def st)
  show "take 2 (fst (harvest_loop a (Inr p # r # rs) s)) =
             [loop_body a s (Inr p), loop_body a (it_state (loop_body a s (Inr p))) r]"
    using assms(2) ctl lc
    by (cases "it_control (loop_body a (after_fetch s p) r)")
       (simp_all add: Let_def st split: prod.splits)
  show "hd (it_events (loop_body a (it_state (loop_body a s (Inr p))) r)) =
             Fetch (aweme_id a) (case res_cursor p of None \<Rightarrow> 0 | Some c \<Rightarrow> c)"
    by (simp add: hd_loop_body_events st after_fetch_def)
qed

theorem empty_page_continues_witness:
  "res_comments page_E = Some [] \<and> loop_cond args_C init_state \<and>
   it_events (loop_body args_C init_state (Inr page_E)) = [Fetch ''A'' 0] \<and>
   it_control (loop_body args_C init_state (Inr page_E)) = Next \<and>
   snd (harvest_loop args_C [Inr page_E] init_state) = AwaitingFetch \<and>
   hd (it_events (loop_body args_C (it_state (loop_body args_C init_state (Inr page_E)))
                    (Inr page_1))) = Fetch ''A'' 7"
proof -
  have e: "res_comments page_E = None \<or> res_comments page_E = Some []"
    by (simp add: page_E_def)
  have lc: "loop_cond args_C init_state"
    by (simp add: loop_cond_def args_C_def init_state_def)
  have hm: "res_has_more page_E = Some 1 \<and> (1::int) \<noteq> 0"
    by (simp add: page_E_def)
  from empty_page_continues [OF e lc, of "[]" 1 "Inr page_1"] hm
  have b: "loop_body args_C init_state (Inr page_E) =
           \<lparr>it_events = [Fetch (aweme_id args_C) (comments_cursor init_state)], it_result = [],
            it_state = init_state\<lparr>comments_has_more :=
                                     (case res_has_more page_E of None \<Rightarrow> 0 | Some h \<Rightarrow> h),
                                   comments_cursor :=
                                     (case res_cursor page_E of None \<Rightarrow> 0 | Some c \<Rightarrow> c)\<rparr>,
            it_control = Next\<rparr>"
    and w: "snd (harvest_loop args_C [Inr page_E] init_state) = AwaitingFetch"
    and n: "hd (it_events (loop_body args_C (it_state (loop_body args_C init_state (Inr page_E)))
                             (Inr page_1))) =
            Fetch (aweme_id args_C) (case res_cursor page_E of None \<Rightarrow> 0 | Some c \<Rightarrow> c)"
    by blast+
  have ev: "it_events (loop_body args_C init_state (Inr page_E)) = [Fetch ''A'' 0]"
    by (simp add: b) (simp add: args_C_def init_state_def)
  have ct: "it_control (loop_body args_C init_state (Inr page_E)) = Next"
    by (simp add: b)
  have nx: "hd (it_events (loop_body args_C (it_state (loop_body args_C init_state (Inr page_E)))
                             (Inr page_1))) = Fetch ''A'' 7"
    unfolding n by (simp add: args_C_def page_E_def)
  have "res_comments page_E = Some []" by (simp add: page_E_def)
  with lc ev ct w nx show ?thesis by (intro conjI)
qed

text \<open>
  C10.  Pages without comments that announce more are fetched back to back: as long as
  the answers are such pages, the run consists of the fetches alone, each sending the cursor
  of the page before it.  No callback is called and no sleep is made, with or without a
  callback argument, and the loop is then waiting for the answer to one more fetch.
\<close>

theorem empty_pages_back_to_back:
  assumes "\<forall>r \<in> set rs. \<exists>p h. r = Inr p \<and> (res_comments p = None \<or> res_comments p = Some []) \<and>
             res_has_more p = Some h \<and> h \<noteq> 0"
    and "max_comments a = None \<or> (\<exists>m. max_comments a = Some m \<and> 0 \<le> m)"
  shows "run_events (get_aweme_all_comments a rs) =
           map (Fetch (aweme_id a)) (butlast (0 # map cursor_after rs)) \<and>
         snd (get_aweme_all_comments a rs) = AwaitingFetch"
proof -
  from assms(1)
  have 1: "\<forall>r \<in> set rs. \<exists>p h. r = Inr p \<and> empty_page p \<and> res_has_more p = Some h \<and> h \<noteq> 0"
    by (auto simp add: empty_page_def)
  from assms(2) have 2: "loop_cond a init_state"
    by (auto simp add: loop_cond_def init_state_def)
  from empty_pages_events [OF 1 2] show ?thesis
    by (simp add: get_aweme_all_comments_def init_state_def)
qed

theorem empty_pages_back_to_back_witness:
  "callback args_C \<and>
   run_events (get_aweme_all_comments args_C [Inr page_E, Inr page_N, Inr page_E]) =
     [Fetch ''A'' 0, Fetch ''A'' 7, Fetch ''A'' 9] \<and>
   snd (get_aweme_all_comments args_C [Inr page_E, Inr page_N, Inr page_E]) = AwaitingFetch"
proof -
  have 1: "\<forall>r \<in> set [Inr page_E, Inr page_N, Inr page_E].
             \<exists>p h. r = Inr p \<and> (res_comments p = None \<or> res_comments p = Some []) \<and>
               res_has_more p = Some h \<and> h \<noteq> 0"
    by (simp add: page_E_def page_N_def)
  have 2: "max_comments args_C = None \<or> (\<exists>m. max_comments args_C = Some m \<and> 0 \<le> m)"
    by (simp add: args_C_def)
  from empty_pages_back_to_back [OF 1 2] show ?thesis
    by (simp add: args_C_def cursor_after_def page_E_def page_N_def)
qed

section \<open>Properties of request signing\<close>

lemma dict_set_not_Nil: "dict_set d k v \<noteq> []"
  by (induction d k v rule: dict_set.induct) simp_all

lemma dict_set_absent: "k \<notin> fst ` set d \<Longrightarrow> dict_set d k v = d @ [(k, v)]"
  by (induction d) auto

lemma dict_set_present:
  "distinct (map fst d) \<Longrightarrow> k \<in> fst ` set d \<Longrightarrow>
     dict_set d k v = map (\<lambda>(k', v'). (k', if k' = k then v else v')) d"
proof (induction d)
  case Nil
  then show ?case by simp
next
  case (Cons p d)
  obtain k' v' where p: "p = (k', v')" by (cases p)
  show ?case
  proof (cases "k' = k")
    case True
    with Cons.prems p have "k \<notin> fst ` set d" by auto
    then have "map (\<lambda>(k', v'). (k', if k' = k then v else v')) d = d"
      by (induction d) auto
    with True p show ?thesis by simp
  next
    case False
    with Cons p show ?thesis by auto
  qed
qed

lemma map_fst_dict_set:
  "map fst (dict_set d k v) = (if k \<in> set (map fst d) then map fst d else map fst d @ [k])"
  by (induction d) (fastforce simp add: image_iff)+

lemma keys_dict_set: "fst ` set (dict_set d k v) = insert k (fst ` set d)"
proof -
  have "set (map fst (dict_set d k v)) = insert k (set (map fst d))"
    by (auto simp add: map_fst_dict_set)
  then show ?thesis by simp
qed

lemma distinct_dict_set: "distinct (map fst d) \<Longrightarrow> distinct (map fst (dict_set d k v))"
  by (simp add: map_fst_dict_set)

lemma map_of_dict_set: "map_of (dict_set d k v) = (map_of d)(k \<mapsto> v)"
  by (induction d) (auto simp: fun_eq_iff)

lemma dict_set_same: "distinct (map fst d) \<Longrightarrow> (k, v) \<in> set d \<Longrightarrow> dict_set d k v = d"
  by (induction d) (fastforce simp add: image_iff)+

lemma dict_update_same:
  "distinct (map fst d) \<Longrightarrow> set c \<subseteq> set d \<Longrightarrow> dict_update d c = d"
proof (induction c)
  case Nil
  then show ?case by (simp add: dict_update_def)
next
  case (Cons p c)
  obtain k v where p: "p = (k, v)" by (cases p)
  with Cons.prems have "dict_set d k v = d" by (simp add: dict_set_same)
  with Cons p show ?case by (simp add: dict_update_def)
qed

text \<open>One \<^verbatim>\<open>d[k] = v\<close> of the update, on the specification's side.\<close>

lemma merged_spec_step:
  assumes "distinct (map fst d)" "k \<notin> fst ` set c"
  shows "merged_spec (dict_set d k v) c = merged_spec d ((k, v) # c)"
proof (cases "k \<in> fst ` set d")
  case True
  have nk: "map_of c k = None" using assms(2) by (simp add: map_of_eq_None_iff)
  have "map (\<lambda>(k', v'). (k', case map_of c k' of None \<Rightarrow> v' | Some x \<Rightarrow> x))
          (map (\<lambda>(k', v'). (k', if k' = k then v else v')) d) =
        map (\<lambda>(k', v'). (k', case map_of ((k, v) # c) k' of None \<Rightarrow> v' | Some x \<Rightarrow> x)) d"
    using nk by (auto simp add: comp_def split: option.splits)
  moreover have "fst ` set (dict_set d k v) = fst ` set d"
    using True by (simp add: keys_dict_set insert_absorb)
  moreover have "filter (\<lambda>(k', x). k' \<notin> fst ` set d) ((k, v) # c) =
                 filter (\<lambda>(k', x). k' \<notin> fst ` set d) c"
    using True by simp
  ultimately show ?thesis
    unfolding merged_spec_def using True assms(1) by (simp only: dict_set_present)
next
  case False
  have nd: "k' \<noteq> k" if "(k', v') \<in> set d" for k' v'
    using that False by (fastforce simp add: image_iff)
  have nc: "k' \<noteq> k" if "(k', x) \<in> set c" for k' x
    using that assms(2) by (fastforce simp add: image_iff)
  have m: "map (\<lambda>(k', v'). (k', case map_of ((k, v) # c) k' of None \<Rightarrow> v' | Some x \<Rightarrow> x)) d =
           map (\<lambda>(k', v'). (k', case map_of c k' of None \<Rightarrow> v' | Some x \<Rightarrow> x)) d"
    by (rule map_cong) (auto dest: nd)
  have f: "filter (\<lambda>(k', x). k' \<notin> fst ` set (d @ [(k, v)])) c =
           filter (\<lambda>(k', x). k' \<notin> fst ` set d) c"
    by (rule filter_cong) (auto dest: nc)
  have "merged_spec (d @ [(k, v)]) c =
          map (\<lambda>(k', v'). (k', case map_of c k' of None \<Rightarrow> v' | Some x \<Rightarrow> x)) d @
          (k, v) # filter (\<lambda>(k', x). k' \<notin> fst ` set d) c"
  proof -
    have "map_of c k = None" using assms(2) by (simp add: map_of_eq_None_iff)
    then show ?thesis unfolding merged_spec_def f by simp
  qed
  moreover have "merged_spec d ((k, v) # c) =
          map (\<lambda>(k', v'). (k', case map_of c k' of None \<Rightarrow> v' | Some x \<Rightarrow> x)) d @
          (k, v) # filter (\<lambda>(k', x). k' \<notin> fst ` set d) c"
    unfolding merged_spec_def m using False by simp
  ultimately show ?thesis using False by (simp add: dict_set_absent)
qed

text \<open>\<^verbatim>\<open>params.update(common_params)\<close> computes the merge the specification describes.\<close>

lemma dict_update_merged:
  "distinct (map fst d) \<Longrightarrow> distinct (map fst c) \<Longrightarrow> dict_update d c = merged_spec d c"
proof (induction c arbitrary: d)
  case Nil
  then show ?case by (simp add: dict_update_def merged_spec_def)
next
  case (Cons p c)
  obtain k v where p: "p = (k, v)" by (cases p)
  from Cons.prems p have k: "k \<notin> fst ` set c" and dc: "distinct (map fst c)" by auto
  have "dict_update d (p # c) = dict_update (dict_set d k v) c"
    by (simp add: dict_update_def p)
  also have "\<dots> = merged_spec (dict_set d k v) c"
    using Cons.prems(1) dc by (intro Cons.IH distinct_dict_set)
  also have "\<dots> = merged_spec d (p # c)"
    using Cons.prems(1) k by (simp add: merged_spec_step p)
  finally show ?case .
qed

lemma distinct_common_params: "distinct (map fst common_params)"
  by (simp add: common_params_def)

lemma x_bogus_not_common: "''X-Bogus'' \<notin> fst ` set common_params"
  by (simp add: common_params_def)

lemma map_of_merged_const:
  assumes "distinct (map fst c)" "(k, v) \<in> set c"
  shows "(k, v) \<in> set (merged_spec d c)"
proof (cases "k \<in> fst ` set d")
  case True
  then obtain v' where "(k, v') \<in> set d" by auto
  moreover have "map_of c k = Some v" using assms by simp
  ultimately have "(k, v) \<in> (\<lambda>(k, v). (k, case map_of c k of None \<Rightarrow> v | Some x \<Rightarrow> x)) ` set d"
    by force
  then show ?thesis by (simp add: merged_spec_def)
next
  case False
  with assms(2) show ?thesis by (auto simp add: merged_spec_def)
qed

lemma keys_merged_spec: "fst ` set (merged_spec d c) = fst ` set d \<union> fst ` set c"
proof -
  have "fst ` (\<lambda>(k, v). (k, case map_of c k of None \<Rightarrow> v | Some x \<Rightarrow> x)) ` set d = fst ` set d"
    by (force simp add: image_iff)
  moreover have "fst ` set d \<union> fst ` {x \<in> set c. case x of (k, x) \<Rightarrow> k \<notin> fst ` set d} =
                 fst ` set d \<union> fst ` set c"
    by (auto simp add: image_iff)
  ultimately show ?thesis by (simp add: merged_spec_def image_Un)
qed

lemma fst_comp_keep_key: "fst \<circ> (\<lambda>(k, v). (k, g k v)) = fst"
  by (auto simp add: fun_eq_iff)

lemma distinct_merged_spec:
  assumes "distinct (map fst d)" "distinct (map fst c)"
  shows "distinct (map fst (merged_spec d c))"
proof -
  have "distinct (map fst (filter (\<lambda>(k, x). k \<notin> fst ` set d) c))"
    using assms(2) by (simp add: distinct_map_filter)
  moreover have "set (map fst d) \<inter> set (map fst (filter (\<lambda>(k, x). k \<notin> fst ` set d) c)) = {}"
    by (auto simp add: image_iff)
  ultimately show ?thesis using assms(1) by (simp add: merged_spec_def fst_comp_keep_key)
qed


lemma join_snoc: "xs \<noteq> [] \<Longrightarrow> join sep (xs @ [y]) = join sep xs @ sep @ y"
  by (induction sep xs rule: join.induct) auto

lemma query_of_snoc:
  "d \<noteq> [] \<Longrightarrow> query_of (d @ [(k, v)]) = query_of d @ ''&'' @ k @ ''='' @ format_value v"
  by (simp add: query_of_def join_snoc)

text \<open>When the method returns normally on a non-empty map, the evaluator was called.\<close>

lemma process_req_params_ok:
  assumes "d \<noteq> []" "process_req_params env self_headers (Some d) headers = (Some r, None)"
  shows "\<exists>ua x. map_of (effective_headers self_headers headers) ''User-Agent'' = Some ua \<and>
               js_sign env (query_of (dict_update d common_params)) ua = Inr x \<and>
               r = dict_set (dict_update d common_params) ''X-Bogus'' (PyStr x)"
  using assms
  by (auto simp add: process_req_params_def Let_def split: option.splits sum.splits)

lemma process_req_params_signs:
  assumes "d \<noteq> []" and "prepare env = None"
    and "map_of (effective_headers self_headers headers) ''User-Agent'' = Some ua"
    and "js_sign env (query_of (dict_update d common_params)) ua = Inr x_bogus"
  shows "process_req_params env self_headers (Some d) headers =
           (Some (dict_set (dict_update d common_params) ''X-Bogus'' (PyStr x_bogus)), None)"
  using assms by (simp add: process_req_params_def Let_def)



text \<open>
  C6.  Signing is not idempotent.  Take a non-empty map without an \<^verbatim>\<open>X-Bogus\<close> entry, sign
  it, and sign the result again (both calls returning normally).  The query given to the
  evaluator the second time is the first query followed by \<^verbatim>\<open>&X-Bogus=\<close> and the first
  signature.  So an evaluator that gives different queries different answers gives the
  second map a signature other than the first: signing twice is not signing once.
\<close>

theorem resigning_changes_signature:
  assumes "d \<noteq> []" and "distinct (map fst d)" and "''X-Bogus'' \<notin> fst ` set d"
    and "process_req_params env self_headers (Some d) headers = (Some r1, None)"
    and "process_req_params env self_headers (Some r1) headers = (Some r2, None)"
    and "\<forall>ua. inj (\<lambda>query. js_sign env query ua)"
  shows "(\<exists>s1 s2. map_of r1 ''X-Bogus'' = Some (PyStr s1) \<and>
                   map_of r2 ''X-Bogus'' = Some (PyStr s2) \<and> s1 \<noteq> s2 \<and>
                   query_of (dict_update r1 common_params) =
                     query_of (dict_update d common_params) @ ''&X-Bogus='' @ s1) \<and>
         r2 \<noteq> r1"
proof -
  let ?m = "dict_update d common_params"
  have m: "?m = merged_spec d common_params"
    using assms(2) distinct_common_params by (rule dict_update_merged)
  have dm: "distinct (map fst ?m)"
    unfolding m using assms(2) distinct_common_params by (rule distinct_merged_spec)
  have xm: "''X-Bogus'' \<notin> fst ` set ?m"
    unfolding m keys_merged_spec using assms(3) x_bogus_not_common by simp
  have "merged_spec d common_params \<noteq> []"
    using assms(1) by (simp add: merged_spec_def)
  then have mne: "?m \<noteq> []" by (simp add: m)
  from process_req_params_ok [OF assms(1) assms(4)]
  obtain ua s1 where ua: "map_of (effective_headers self_headers headers) ''User-Agent'' = Some ua"
    and s1: "js_sign env (query_of ?m) ua = Inr s1"
    and r1: "r1 = dict_set ?m ''X-Bogus'' (PyStr s1)"
    by blast
  from r1 xm have r1': "r1 = ?m @ [(''X-Bogus'', PyStr s1)]"
    by (simp add: dict_set_absent)
  have dr1: "distinct (map fst r1)"
    unfolding r1 using dm by (rule distinct_dict_set)
  have "set common_params \<subseteq> set ?m"
    unfolding m using distinct_common_params by (auto intro: map_of_merged_const)
  then have "set common_params \<subseteq> set r1" by (auto simp add: r1')
  with dr1 have again: "dict_update r1 common_params = r1" by (rule dict_update_same)
  have r1ne: "r1 \<noteq> []" by (simp add: r1')
  from process_req_params_ok [OF r1ne assms(5)] ua
  obtain s2 where s2: "js_sign env (query_of r1) ua = Inr s2"
    and r2: "r2 = dict_set r1 ''X-Bogus'' (PyStr s2)"
    by (auto simp add: again)
  have q: "query_of r1 = query_of ?m @ ''&X-Bogus='' @ s1"
    unfolding r1' using mne by (simp add: query_of_snoc)
  then have "query_of r1 \<noteq> query_of ?m" by simp
  with assms(6) have "js_sign env (query_of r1) ua \<noteq> js_sign env (query_of ?m) ua"
    by (auto dest: injD)
  with s1 s2 have ne: "s1 \<noteq> s2" by auto
  have x1: "map_of r1 ''X-Bogus'' = Some (PyStr s1)" by (simp add: r1 map_of_dict_set)
  have x2: "map_of r2 ''X-Bogus'' = Some (PyStr s2)" by (simp add: r2 map_of_dict_set)
  from x1 x2 ne have "r2 \<noteq> r1" by auto
  with x1 x2 ne q again show ?thesis by auto
qed

theorem resigning_changes_signature_witness:
  "params_0 \<noteq> [] \<and> ''X-Bogus'' \<notin> fst ` set params_0 \<and>
   (\<exists>r1 r2. process_req_params env_0 headers_0 (Some params_0) None = (Some r1, None) \<and>
            process_req_params env_0 headers_0 (Some r1) None = (Some r2, None) \<and>
            map_of r2 ''X-Bogus'' \<noteq> map_of r1 ''X-Bogus'' \<and> r2 \<noteq> r1)"
proof -
  have 1: "params_0 \<noteq> []" and 2: "distinct (map fst params_0)"
    and 3: "''X-Bogus'' \<notin> fst ` set params_0"
    by (simp_all add: params_0_def)
  have p: "prepare env_0 = None" by (simp add: env_0_def)
  have ua: "map_of (effective_headers headers_0 None) ''User-Agent'' = Some ''UA''"
    by (simp add: effective_headers_def headers_0_def)
  have sg: "js_sign env_0 q ''UA'' = Inr (''UA:'' @ q)" for q by (simp add: env_0_def)
  have inj: "\<forall>ua. inj (\<lambda>query. js_sign env_0 query ua)"
    by (simp add: env_0_def inj_def)
  define r1 where
    "r1 = dict_set (dict_update params_0 common_params) ''X-Bogus''
            (PyStr (''UA:'' @ query_of (dict_update params_0 common_params)))"
  define r2 where
    "r2 = dict_set (dict_update r1 common_params) ''X-Bogus''
            (PyStr (''UA:'' @ query_of (dict_update r1 common_params)))"
  have e1: "process_req_params env_0 headers_0 (Some params_0) None = (Some r1, None)"
    unfolding r1_def using 1 p ua sg by (rule process_req_params_signs)
  have "r1 \<noteq> []" unfolding r1_def by (rule dict_set_not_Nil)
  then have e2: "process_req_params env_0 headers_0 (Some r1) None = (Some r2, None)"
    unfolding r2_def using p ua sg by (rule process_req_params_signs)
  from resigning_changes_signature [OF 1 2 3 e1 e2 inj]
  have "map_of r2 ''X-Bogus'' \<noteq> map_of r1 ''X-Bogus'' \<and> r2 \<noteq> r1" by auto
  with 1 3 e1 e2 show ?thesis by blast
qed

section \<open>Properties of trajectory synthesis\<close>

















end
